theory Spec2Isabelle
  imports Main "HOL-Library.Word"
begin

section \<open>The object cache of cache.go\<close>

subsection \<open>Data\<close>

text \<open>
  Go's \<open>int64\<close> (the \<open>expire\<close> field, \<open>time.Duration\<close>, and what \<open>UnixNano()\<close> returns) is
  a 64-bit word read as two's complement: \<open>+\<close> wraps, and the source's \<open>v.expire < e\<close> is
  the signed comparison \<open><s\<close>.
\<close>

type_synonym int64 = "64 word"

text \<open>A \<open>*list.Element\<close> is an address; \<open>nil\<close> is \<open>None\<close> of \<open>elem option\<close>.\<close>

type_synonym elem = nat

text \<open>
  \<open>type pair struct { Object interface{}; expire int64; key string }\<close>. An
  \<open>interface{}\<close> value is \<open>'v option\<close>, with \<open>None\<close> for Go's \<open>nil\<close>.
\<close>

record 'v pair =
  Object :: "'v option"
  expire :: int64
  key :: string

text \<open>
  Modelled from the spec: the \<open>Config\<close> type, whose declaration is not in cache.go. The
  spec gives it two options, \<open>MaxEntryLimit\<close> (compared with the \<open>int\<close> field
  \<open>itemCount\<close> at line 62) and \<open>Expiration\<close> (assigned to a \<open>time.Duration\<close> at line 54).
\<close>

record Config =
  MaxEntryLimit :: int
  Expiration :: int64

text \<open>
  \<open>sync.RWMutex\<close>: how many goroutines hold it for reading, and whether one holds it for
  writing. \<open>Lock\<close> and \<open>RLock\<close> block until the mutex can be taken; the model describes a
  call from the moment the mutex is granted, so the four operations only record what is held.
\<close>

record RWMutex =
  readers :: nat
  writer :: bool

text \<open>
  \<open>type ObjCache struct { mu; items; list; itemCount; config }\<close>. The linked list
  \<open>c.list\<close> is the sequence of its elements' addresses, front first. The elements live in
  a heap: \<open>Value\<close> holds the \<open>Value\<close> field of every element, also of one that has been
  removed from the list (\<open>list.Remove\<close> keeps it), and \<open>fresh\<close> is the address the next
  \<open>PushBack\<close> allocates. \<open>itemCount\<close> is Go's \<open>int\<close>; it counts elements in memory, so it
  stays far from the ends of its range and is an unbounded \<open>int\<close> here.
\<close>

record 'v ObjCache =
  mu :: RWMutex
  items :: "string \<rightharpoonup> elem"
  list :: "elem list"
  itemCount :: int
  config :: Config
  Value :: "elem \<Rightarrow> 'v pair"
  fresh :: elem

datatype panic = NilPointerDereference

text \<open>Go's \<open>error\<close>: \<open>None\<close> is the \<open>nil\<close> error.\<close>

type_synonym error = "string option"

subsection \<open>sync.RWMutex and container/list\<close>

definition Lock :: "'v ObjCache \<Rightarrow> 'v ObjCache" where
  "Lock c = c\<lparr>mu := (mu c)\<lparr>writer := True\<rparr>\<rparr>"

definition Unlock :: "'v ObjCache \<Rightarrow> 'v ObjCache" where
  "Unlock c = c\<lparr>mu := (mu c)\<lparr>writer := False\<rparr>\<rparr>"

definition RLock :: "'v ObjCache \<Rightarrow> 'v ObjCache" where
  "RLock c = c\<lparr>mu := (mu c)\<lparr>readers := Suc (readers (mu c))\<rparr>\<rparr>"

definition RUnlock :: "'v ObjCache \<Rightarrow> 'v ObjCache" where
  "RUnlock c = c\<lparr>mu := (mu c)\<lparr>readers := readers (mu c) - 1\<rparr>\<rparr>"

text \<open>\<open>l.Front()\<close>: the first element, or \<open>nil\<close>.\<close>

definition Front :: "elem list \<Rightarrow> elem option" where
  "Front l = (case l of [] \<Rightarrow> None | e # _ \<Rightarrow> Some e)"

text \<open>\<open>l.Remove(e)\<close>: unlinks \<open>e\<close> if it is an element of \<open>l\<close>, and does nothing otherwise.\<close>

definition Remove :: "elem \<Rightarrow> elem list \<Rightarrow> elem list" where
  "Remove e l = (if e \<in> set l then remove1 e l else l)"

text \<open>
  \<open>l.MoveToBack(e)\<close>: \<open>if e.list != l || l.root.prev == e { return }\<close>, and otherwise
  \<open>e\<close> is unlinked and linked in again after the last element.
\<close>

definition MoveToBack :: "elem \<Rightarrow> elem list \<Rightarrow> elem list" where
  "MoveToBack e l = (if e \<notin> set l \<or> last l = e then l else remove1 e l @ [e])"

text \<open>\<open>c.list.PushBack(p)\<close>: a new element holding \<open>p\<close>, linked in at the back.\<close>

definition PushBack :: "'v ObjCache \<Rightarrow> 'v pair \<Rightarrow> 'v ObjCache \<times> elem" where
  "PushBack c p =
     (let e = fresh c
      in (c\<lparr>Value := (Value c)(e := p), list := list c @ [e], fresh := Suc e\<rparr>, e))"

subsection \<open>The operations\<close>

text \<open>
  \<open>removeExpired\<close> (lines 25 to 41). The clock is read once, before the loop, and is the
  argument \<open>e\<close>. Each turn of the loop that does not break unlinks the front element.
\<close>

function removeExpired :: "'v ObjCache \<Rightarrow> int64 \<Rightarrow> 'v ObjCache" where
  "removeExpired c e =
     (case Front (list c) of
        None \<Rightarrow> c
      | Some elem \<Rightarrow>
          (let v = Value c elem
           in if expire v <s e
              then removeExpired
                     (c\<lparr>itemCount := itemCount c - 1,
                        items := (items c)(key v := None),
                        list := Remove elem (list c)\<rparr>) e
              else c))"
  by pat_completeness auto
termination
  by (relation "measure (\<lambda>(c, e). length (list c))")
     (auto simp: Front_def Remove_def split: list.splits)

text \<open>
  \<open>removeOldest\<close> (lines 43 to 49). \<open>elem.Value\<close> on a \<open>nil\<close> front element is a nil
  pointer dereference: the call panics.
\<close>

definition removeOldest :: "'v ObjCache \<Rightarrow> panic + 'v ObjCache" where
  "removeOldest c =
     (let c = c\<lparr>itemCount := itemCount c - 1\<rparr>
      in case Front (list c) of
           None \<Rightarrow> Inl NilPointerDereference
         | Some elem \<Rightarrow>
             (let v = Value c elem
              in Inr (c\<lparr>items := (items c)(key v := None),
                        list := Remove elem (list c)\<rparr>)))"

text \<open>
  \<open>Set\<close>, lines 58 to 75: what runs between \<open>c.mu.Lock()\<close> and \<open>c.mu.Unlock()\<close>.
  \<open>now1\<close> is the clock as \<open>removeExpired\<close> reads it and \<open>now2\<close> the clock at line 69;
  \<open>time.Now().Add(d).UnixNano()\<close> is the \<open>int64\<close> sum \<open>now2 + d\<close>, which wraps.
\<close>

definition Set_locked ::
  "'v ObjCache \<Rightarrow> string \<Rightarrow> 'v option \<Rightarrow> int64 \<Rightarrow> int64 \<Rightarrow> int64 \<Rightarrow> panic + 'v ObjCache" where
  "Set_locked c k x d now1 now2 =
     (case items c k of
        None \<Rightarrow>
          (let c = removeExpired c now1
           in case (if MaxEntryLimit (config c) \<le> itemCount c then removeOldest c else Inr c) of
                Inl p \<Rightarrow> Inl p
              | Inr c \<Rightarrow>
                  (let p = \<lparr>Object = x, expire = now2 + d, key = k\<rparr>;
                       (c, e) = PushBack c p;
                       c = c\<lparr>items := (items c)(k \<mapsto> e)\<rparr>
                   in Inr (c\<lparr>itemCount := itemCount c + 1\<rparr>)))
      | Some e \<Rightarrow> Inr (c\<lparr>list := MoveToBack e (list c)\<rparr>))"

text \<open>\<open>Set\<close> (lines 52 to 79). A panic leaves the function before \<open>Unlock\<close> and \<open>return nil\<close>.\<close>

definition Set ::
  "'v ObjCache \<Rightarrow> string \<Rightarrow> 'v option \<Rightarrow> int64 \<Rightarrow> int64 \<Rightarrow> int64
     \<Rightarrow> panic + 'v ObjCache \<times> error" where
  "Set c k x d now1 now2 =
     (let d = (if d = 0 then Expiration (config c) else d);
          c = Lock c
      in case Set_locked c k x d now1 now2 of
           Inl p \<Rightarrow> Inl p
         | Inr c \<Rightarrow> Inr (Unlock c, None))"

text \<open>
  \<open>Get\<close>, lines 84 to 97 without the three \<open>RUnlock\<close> calls: what runs while the mutex is
  held for reading. \<open>now\<close> is the clock at line 91. The result is the pair the source returns.
\<close>

definition Get_locked ::
  "'v ObjCache \<Rightarrow> string \<Rightarrow> int64 \<Rightarrow> 'v ObjCache \<times> 'v option \<times> bool" where
  "Get_locked c k now =
     (case items c k of
        None \<Rightarrow> (c, None, False)
      | Some elem \<Rightarrow>
          (let v = Value c elem
           in if expire v <s now
              then (c\<lparr>itemCount := itemCount c - 1,
                      items := (items c)(k := None),
                      list := Remove elem (list c)\<rparr>, None, False)
              else (c, Object v, True)))"

text \<open>\<open>Get\<close> (lines 82 to 100): every return path releases the read lock first.\<close>

definition Get :: "'v ObjCache \<Rightarrow> string \<Rightarrow> int64 \<Rightarrow> 'v ObjCache \<times> 'v option \<times> bool" where
  "Get c k now = (case Get_locked (RLock c) k now of (c, r) \<Rightarrow> (RUnlock c, r))"

text \<open>\<open>Del\<close>, lines 105 to 110, and \<open>Del\<close> (lines 103 to 113).\<close>

definition Del_locked :: "'v ObjCache \<Rightarrow> string \<Rightarrow> 'v ObjCache \<times> bool" where
  "Del_locked c k =
     (case items c k of
        None \<Rightarrow> (c, False)
      | Some item \<Rightarrow>
          (c\<lparr>itemCount := itemCount c - 1,
             items := (items c)(k := None),
             list := Remove item (list c)\<rparr>, True))"

definition Del :: "'v ObjCache \<Rightarrow> string \<Rightarrow> 'v ObjCache \<times> bool" where
  "Del c k = (case Del_locked (Lock c) k of (c, ok) \<Rightarrow> (Unlock c, ok))"

text \<open>
  \<open>New\<close> (lines 116 to 125). No element has been allocated: every \<open>Value\<close> is the zero
  \<open>pair\<close>, and the mutex is the zero \<open>RWMutex\<close>.
\<close>

definition New :: "Config \<Rightarrow> 'v ObjCache \<times> error" where
  "New cfg =
     (\<lparr>mu = \<lparr>readers = 0, writer = False\<rparr>,
       items = Map.empty,
       list = [],
       itemCount = 0,
       config = cfg,
       Value = (\<lambda>_. \<lparr>Object = None, expire = 0, key = []\<rparr>),
       fresh = 0\<rparr>, None)"

subsection \<open>Sequences of calls\<close>

datatype 'v call =
    CallSet string "'v option" int64 int64 int64
  | CallGet string int64
  | CallDel string

text \<open>Calls made one after the other by one goroutine; a panic ends the run.\<close>

fun run :: "'v ObjCache \<Rightarrow> 'v call list \<Rightarrow> panic + 'v ObjCache" where
  "run c [] = Inr c"
| "run c (CallSet k x d now1 now2 # cs) =
     (case Set c k x d now1 now2 of Inl p \<Rightarrow> Inl p | Inr (c', _) \<Rightarrow> run c' cs)"
| "run c (CallGet k now # cs) = run (fst (Get c k now)) cs"
| "run c (CallDel k # cs) = run (fst (Del c k)) cs"

subsection \<open>The properties of the specification\<close>

text \<open>An entry is stale at clock reading \<open>e\<close> when its \<open>expire\<close> is before \<open>e\<close>.\<close>

definition stale :: "'v ObjCache \<Rightarrow> int64 \<Rightarrow> elem \<Rightarrow> bool" where
  "stale c e = (\<lambda>elem. expire (Value c elem) <s e)"

text \<open>
  The expiration sweep in the spec's words: the longest run of stale entries at the front
  of the sequence goes, each from the index, the sequence and the count; everything from
  the first entry that is not stale on stays.
\<close>

definition sweep :: "'v ObjCache \<Rightarrow> int64 \<Rightarrow> 'v ObjCache" where
  "sweep c e =
     (let gone = takeWhile (stale c e) (list c)
      in c\<lparr>itemCount := itemCount c - int (length gone),
           items := (\<lambda>k. if k \<in> (\<lambda>el. key (Value c el)) ` set gone then None else items c k),
           list := dropWhile (stale c e) (list c)\<rparr>)"

text \<open>The elements of the sequence whose entry has key \<open>k\<close>, front first.\<close>

definition entries :: "'v ObjCache \<Rightarrow> string \<Rightarrow> elem list" where
  "entries c k = filter (\<lambda>e. key (Value c e) = k) (list c)"

text \<open>The keys of the sequence's entries, front first.\<close>

definition keys :: "'v ObjCache \<Rightarrow> string list" where
  "keys c = map (\<lambda>e. key (Value c e)) (list c)"

text \<open>
  I1: a key that the index maps to an element has exactly one entry in the sequence, held
  by that element; a key that is not in the index has no entry in the sequence.
\<close>

definition I1 :: "'v ObjCache \<Rightarrow> bool" where
  "I1 c = (\<forall>k. entries c k = (case items c k of None \<Rightarrow> [] | Some e \<Rightarrow> [e]))"

text \<open>I2: the tracked count is the number of entries in the sequence.\<close>

definition I2 :: "'v ObjCache \<Rightarrow> bool" where
  "I2 c = (itemCount c = int (length (list c)))"

text \<open>
  The heap is well formed when every element of the sequence has been allocated, so that
  \<open>PushBack\<close> returns an element that is not in the sequence, as Go's allocator does.
\<close>

definition allocated :: "'v ObjCache \<Rightarrow> bool" where
  "allocated c = (\<forall>e \<in> set (list c). e < fresh c)"

definition invariant :: "'v ObjCache \<Rightarrow> bool" where
  "invariant c = (I1 c \<and> I2 c \<and> allocated c)"

text \<open>
  \<open>N + 1\<close> insertions as the arguments of their \<open>Set\<close> calls
  \<open>(k, x, d, now1, now2)\<close>: the time at which the entry of a call expires, and "no entry
  has expired in between": no entry is stale when a later call sweeps.
\<close>

type_synonym 'v insertion = "string \<times> 'v option \<times> int64 \<times> int64 \<times> int64"

definition call_of :: "'v insertion \<Rightarrow> 'v call" where
  "call_of i = (case i of (k, x, d, now1, now2) \<Rightarrow> CallSet k x d now1 now2)"

definition expiry :: "Config \<Rightarrow> 'v insertion \<Rightarrow> int64" where
  "expiry cfg i =
     (case i of (k, x, d, now1, now2) \<Rightarrow> now2 + (if d = 0 then Expiration cfg else d))"

definition sweep_time :: "'v insertion \<Rightarrow> int64" where
  "sweep_time i = (case i of (k, x, d, now1, now2) \<Rightarrow> now1)"

fun unexpired :: "Config \<Rightarrow> 'v insertion list \<Rightarrow> bool" where
  "unexpired cfg [] = True"
| "unexpired cfg (i # ins) =
     ((\<forall>j \<in> set ins. \<not> expiry cfg i <s sweep_time j) \<and> unexpired cfg ins)"

subsection \<open>The two updates the operations are made of\<close>

text \<open>
  Lines 34 to 36, 44 to 48, 92 to 94 and 107 to 109: the count goes down by one, a key
  leaves the index, and an element is unlinked. Lines 66 to 72: a new element for
  \<open>(k, x)\<close> that expires at \<open>t\<close> is linked in at the back, the index maps \<open>k\<close> to it,
  and the count goes up by one.
\<close>

definition unlink :: "'v ObjCache \<Rightarrow> string \<Rightarrow> elem \<Rightarrow> 'v ObjCache" where
  "unlink c k el =
     c\<lparr>itemCount := itemCount c - 1, items := (items c)(k := None), list := Remove el (list c)\<rparr>"

definition link_back :: "'v ObjCache \<Rightarrow> string \<Rightarrow> 'v option \<Rightarrow> int64 \<Rightarrow> 'v ObjCache" where
  "link_back c k x t =
     c\<lparr>Value := (Value c)(fresh c := \<lparr>Object = x, expire = t, key = k\<rparr>),
       list := list c @ [fresh c], fresh := Suc (fresh c),
       items := (items c)(k \<mapsto> fresh c), itemCount := itemCount c + 1\<rparr>"

subsection \<open>Example caches\<close>

text \<open>
  A cache for at most two entries, and that cache after \<open>Set("a", 1, 90)\<close> at clock
  reading 10 and \<open>Set("b", 2, 30)\<close> at clock reading 20: \<open>a\<close> is at the front and
  expires at 100, \<open>b\<close> is behind it and expires at 50.
\<close>

definition example_config :: Config where
  "example_config = \<lparr>MaxEntryLimit = 2, Expiration = 5\<rparr>"

definition two_entries :: "nat ObjCache" where
  "two_entries =
     \<lparr>mu = \<lparr>readers = 0, writer = False\<rparr>,
       items = [''a'' \<mapsto> 0, ''b'' \<mapsto> 1],
       list = [0, 1],
       itemCount = 2,
       config = example_config,
       Value = (\<lambda>_. \<lparr>Object = None, expire = 0, key = []\<rparr>)
         (0 := \<lparr>Object = Some 1, expire = 100, key = ''a''\<rparr>,
          1 := \<lparr>Object = Some 2, expire = 50, key = ''b''\<rparr>),
       fresh = 2\<rparr>"

section \<open>Lemmas\<close>

subsection \<open>The mutex\<close>

lemma Lock_fields [simp]:
  "items (Lock c) = items c" "list (Lock c) = list c" "itemCount (Lock c) = itemCount c"
  "config (Lock c) = config c" "Value (Lock c) = Value c" "fresh (Lock c) = fresh c"
  "mu (Lock c) = (mu c)\<lparr>writer := True\<rparr>"
  by (simp_all add: Lock_def)

lemma Unlock_fields [simp]:
  "items (Unlock c) = items c" "list (Unlock c) = list c" "itemCount (Unlock c) = itemCount c"
  "config (Unlock c) = config c" "Value (Unlock c) = Value c" "fresh (Unlock c) = fresh c"
  "mu (Unlock c) = (mu c)\<lparr>writer := False\<rparr>"
  by (simp_all add: Unlock_def)

lemma RLock_fields [simp]:
  "items (RLock c) = items c" "list (RLock c) = list c" "itemCount (RLock c) = itemCount c"
  "config (RLock c) = config c" "Value (RLock c) = Value c" "fresh (RLock c) = fresh c"
  "mu (RLock c) = (mu c)\<lparr>readers := Suc (readers (mu c))\<rparr>"
  by (simp_all add: RLock_def)

lemma RUnlock_fields [simp]:
  "items (RUnlock c) = items c" "list (RUnlock c) = list c" "itemCount (RUnlock c) = itemCount c"
  "config (RUnlock c) = config c" "Value (RUnlock c) = Value c" "fresh (RUnlock c) = fresh c"
  "mu (RUnlock c) = (mu c)\<lparr>readers := readers (mu c) - 1\<rparr>"
  by (simp_all add: RUnlock_def)

lemma RUnlock_RLock: "RUnlock (RLock c) = c"
  by (simp add: RUnlock_def RLock_def)

lemma Unlock_Lock: "Unlock (Lock c) = c\<lparr>mu := (mu c)\<lparr>writer := False\<rparr>\<rparr>"
  by (simp add: Unlock_def Lock_def)

lemma Unlock_Lock_free: "\<not> writer (mu c) \<Longrightarrow> Unlock (Lock c) = c"
  by (simp add: Unlock_def Lock_def)

subsection \<open>The sweep\<close>

text \<open>
  The equation of \<open>removeExpired\<close> unfolds for ever as a rewrite rule; the loop is
  replaced by \<open>sweep\<close> instead.
\<close>

declare removeExpired.simps [simp del]

lemma removeExpired_sweep: "removeExpired c e = sweep c e"
proof (induction c e rule: removeExpired.induct)
  case (1 c e)
  show ?case
  proof (cases "list c")
    case Nil
    then show ?thesis
      by (simp add: removeExpired.simps [of c e] Front_def sweep_def)
  next
    case (Cons el rest)
    show ?thesis
    proof (cases "expire (Value c el) <s e")
      case False
      with Cons show ?thesis
        by (simp add: removeExpired.simps [of c e] Front_def sweep_def stale_def)
    next
      case True
      let ?c' = "c\<lparr>itemCount := itemCount c - 1,
                        items := (items c)(key (Value c el) := None),
                        list := Remove el (list c)\<rparr>"
      have "removeExpired c e = removeExpired ?c' e"
        using Cons True by (simp add: removeExpired.simps [of c e] Front_def)
      also have "\<dots> = sweep ?c' e"
        using 1 [of el "Value c el"] Cons True by (simp add: Front_def)
      also have "\<dots> = sweep c e"
        using Cons True
        by (auto simp add: sweep_def stale_def Remove_def Let_def fun_eq_iff)
      finally show ?thesis .
    qed
  qed
qed

lemma sweep_fields [simp]:
  "config (sweep c e) = config c" "Value (sweep c e) = Value c" "fresh (sweep c e) = fresh c"
  "mu (sweep c e) = mu c"
  "list (sweep c e) = dropWhile (stale c e) (list c)"
  "itemCount (sweep c e) = itemCount c - int (length (takeWhile (stale c e) (list c)))"
  by (simp_all add: sweep_def Let_def)

lemma sweep_items_None: "items c k = None \<Longrightarrow> items (sweep c e) k = None"
  by (simp add: sweep_def Let_def)

lemma sweep_fresh_front:
  "list c = [] \<or> \<not> stale c e (hd (list c)) \<Longrightarrow> sweep c e = c"
  by (cases "list c") (auto simp: sweep_def)

lemma sweep_Lock: "sweep (Lock c) e = Lock (sweep c e)"
  by (simp add: sweep_def Lock_def stale_def Let_def cong: if_cong)

subsection \<open>The invariants under the two updates\<close>

lemma entries_Some:
  assumes "I1 c" "items c k = Some e"
  shows "entries c k = [e]" "e \<in> set (list c)" "key (Value c e) = k"
proof -
  show *: "entries c k = [e]" using assms by (simp add: I1_def)
  have "e \<in> set (entries c k)" by (simp add: *)
  then show "e \<in> set (list c)" "key (Value c e) = k" by (simp_all add: entries_def)
qed

lemma items_of_elem:
  assumes "I1 c" "e \<in> set (list c)"
  shows "items c (key (Value c e)) = Some e"
proof -
  have m: "e \<in> set (entries c (key (Value c e)))"
    using assms(2) by (simp add: entries_def)
  show ?thesis
  proof (cases "items c (key (Value c e))")
    case None
    with assms(1) have "entries c (key (Value c e)) = []" by (simp add: I1_def)
    with m show ?thesis by simp
  next
    case (Some e')
    with assms(1) have "entries c (key (Value c e)) = [e']" by (simp add: I1_def)
    with m Some show ?thesis by simp
  qed
qed

lemma I1_distinct: "I1 c \<Longrightarrow> distinct (list c)"
proof (rule ccontr)
  assume i: "I1 c" and "\<not> distinct (list c)"
  then obtain xs ys zs e where l: "list c = xs @ [e] @ ys @ [e] @ zs"
    using not_distinct_decomp by blast
  have "e \<in> set (list c)" by (simp add: l)
  then have "items c (key (Value c e)) = Some e" using i by (rule items_of_elem [rotated])
  then have "entries c (key (Value c e)) = [e]" using i by (simp add: I1_def)
  then have "length (entries c (key (Value c e))) = 1" by simp
  moreover have "length (entries c (key (Value c e))) \<ge> 2"
    by (simp add: entries_def l)
  ultimately show False by simp
qed

lemma invariant_unlink:
  assumes "invariant c" "items c k = Some e"
  shows "invariant (unlink c k e)"
proof -
  from assms have i1: "I1 c" and i2: "I2 c" and al: "allocated c"
    by (simp_all add: invariant_def)
  note es = entries_Some [OF i1 assms(2)]
  have "entries (unlink c k e) k' = (case items (unlink c k e) k' of None \<Rightarrow> [] | Some e \<Rightarrow> [e])" for k'
  proof (cases "k' = k")
    case True
    have "entries (unlink c k e) k = remove1 e (entries c k)"
      using es(2) by (simp add: entries_def unlink_def Remove_def filter_remove1)
    then show ?thesis using True es(1) by (simp add: unlink_def)
  next
    case False
    have "e \<notin> set (entries c k')" using es(3) False by (simp add: entries_def)
    then have "entries (unlink c k e) k' = entries c k'"
      using es(2) by (simp add: entries_def unlink_def Remove_def filter_remove1 remove1_idem)
    then show ?thesis using False i1 by (simp add: unlink_def I1_def)
  qed
  then have "I1 (unlink c k e)" by (simp add: I1_def)
  moreover have "I2 (unlink c k e)"
  proof -
    have "list c \<noteq> []" using es(2) by auto
    then have "int (length (list c) - 1) = int (length (list c)) - 1"
      by (cases "list c") simp_all
    then show ?thesis
      using i2 es(2) by (simp add: I2_def unlink_def Remove_def length_remove1)
  qed
  moreover have "allocated (unlink c k e)"
    using al by (auto simp: allocated_def unlink_def Remove_def dest: notin_set_remove1)
  ultimately show ?thesis by (simp add: invariant_def)
qed

lemma invariant_unlink_front:
  assumes "invariant c" "list c = el # rest"
  shows "invariant (unlink c (key (Value c el)) el)"
proof -
  have "items c (key (Value c el)) = Some el"
    using assms by (intro items_of_elem) (simp_all add: invariant_def)
  with assms(1) show ?thesis by (rule invariant_unlink)
qed

lemma invariant_link_back:
  assumes "invariant c" "items c k = None"
  shows "invariant (link_back c k x t)"
proof -
  from assms have i1: "I1 c" and i2: "I2 c" and al: "allocated c"
    by (simp_all add: invariant_def)
  have fr: "fresh c \<notin> set (list c)" using al by (auto simp: allocated_def)
  have same: "filter (\<lambda>e. key (Value (link_back c k x t) e) = k') (list c) = entries c k'" for k'
    unfolding entries_def using fr by (intro filter_cong) (auto simp: link_back_def)
  have none: "entries c k = []" using i1 assms(2) by (simp add: I1_def)
  have "entries (link_back c k x t) k' =
        (case items (link_back c k x t) k' of None \<Rightarrow> [] | Some e \<Rightarrow> [e])" for k'
  proof -
    have "entries (link_back c k x t) k' =
          filter (\<lambda>e. key (Value (link_back c k x t) e) = k') (list c) @ (if k' = k then [fresh c] else [])"
      by (simp add: entries_def link_back_def)
    then show ?thesis
      using same [of k'] none i1 by (auto simp: I1_def link_back_def)
  qed
  then have "I1 (link_back c k x t)" by (simp add: I1_def)
  moreover have "I2 (link_back c k x t)" using i2 by (simp add: I2_def link_back_def)
  moreover have "allocated (link_back c k x t)"
    using al by (auto simp: allocated_def link_back_def)
  ultimately show ?thesis by (simp add: invariant_def)
qed

subsection \<open>The operations, case by case\<close>

lemma unlink_fields [simp]:
  "items (unlink c k e) = (items c)(k := None)" "list (unlink c k e) = Remove e (list c)"
  "itemCount (unlink c k e) = itemCount c - 1" "config (unlink c k e) = config c"
  "Value (unlink c k e) = Value c" "fresh (unlink c k e) = fresh c" "mu (unlink c k e) = mu c"
  by (simp_all add: unlink_def)

lemma link_back_fields [simp]:
  "items (link_back c k x t) = (items c)(k \<mapsto> fresh c)"
  "list (link_back c k x t) = list c @ [fresh c]"
  "itemCount (link_back c k x t) = itemCount c + 1" "config (link_back c k x t) = config c"
  "Value (link_back c k x t) = (Value c)(fresh c := \<lparr>Object = x, expire = t, key = k\<rparr>)"
  "fresh (link_back c k x t) = Suc (fresh c)" "mu (link_back c k x t) = mu c"
  by (simp_all add: link_back_def)

lemma removeOldest_eq:
  "removeOldest c =
     (case list c of
        [] \<Rightarrow> Inl NilPointerDereference
      | el # rest \<Rightarrow> Inr (unlink c (key (Value c el)) el))"
  by (simp add: removeOldest_def Front_def unlink_def Let_def split: list.split)

lemma Set_locked_absent:
  assumes "items c k = None"
  shows "Set_locked c k x t now1 now2 =
    (let c1 = sweep c now1
     in case (if MaxEntryLimit (config c) \<le> itemCount c1 then removeOldest c1 else Inr c1) of
          Inl p \<Rightarrow> Inl p
        | Inr c2 \<Rightarrow> Inr (link_back c2 k x (now2 + t)))"
  using assms
  by (simp add: Set_locked_def removeExpired_sweep PushBack_def Let_def link_back_def
      split: sum.split)

lemma Unlock_link_back_Lock:
  "Unlock (link_back (Lock c) k x t) = Unlock (link_back c k x t)"
  by (simp add: Unlock_def Lock_def link_back_def)

lemma Unlock_link_back_unlink_Lock:
  "Unlock (link_back (unlink (Lock c) k' e) k x t) = Unlock (link_back (unlink c k' e) k x t)"
  by (simp add: Unlock_def Lock_def link_back_def unlink_def)

lemma Set_absent:
  assumes "items c k = None"
  shows "Set c k x d now1 now2 =
    (let c1 = sweep c now1; t = now2 + (if d = 0 then Expiration (config c) else d)
     in if MaxEntryLimit (config c) \<le> itemCount c1
        then (case list c1 of
                [] \<Rightarrow> Inl NilPointerDereference
              | el # rest \<Rightarrow> Inr (Unlock (link_back (unlink c1 (key (Value c el)) el) k x t), None))
        else Inr (Unlock (link_back c1 k x t), None))"
proof -
  have n: "items (Lock c) k = None" using assms by simp
  show ?thesis
    unfolding Set_def Let_def Set_locked_absent [OF n] sweep_Lock removeOldest_eq
    by (cases "dropWhile (stale c now1) (list c)")
       (simp_all only: sweep_fields Lock_fields list.case if_True if_False
          Unlock_link_back_Lock Unlock_link_back_unlink_Lock sum.case, auto)
qed

lemma Set_present:
  "items c k = Some e \<Longrightarrow>
   Set c k x d now1 now2 =
     Inr (c\<lparr>list := MoveToBack e (list c), mu := (mu c)\<lparr>writer := False\<rparr>\<rparr>, None)"
  by (auto simp: Set_def Set_locked_def Unlock_def Lock_def Let_def)

lemma Get_absent: "items c k = None \<Longrightarrow> Get c k now = (c, None, False)"
  by (simp add: Get_def Get_locked_def RUnlock_def RLock_def)

lemma Get_stale:
  "items c k = Some e \<Longrightarrow> expire (Value c e) <s now \<Longrightarrow> Get c k now = (unlink c k e, None, False)"
  by (simp add: Get_def Get_locked_def RUnlock_def RLock_def unlink_def)

lemma Get_live:
  "items c k = Some e \<Longrightarrow> \<not> expire (Value c e) <s now \<Longrightarrow>
   Get c k now = (c, Object (Value c e), True)"
  by (simp add: Get_def Get_locked_def RUnlock_def RLock_def)

lemma Del_absent: "items c k = None \<Longrightarrow> Del c k = (Unlock c, False)"
  by (simp add: Del_def Del_locked_def Unlock_def Lock_def)

lemma Del_present: "items c k = Some e \<Longrightarrow> Del c k = (Unlock (unlink c k e), True)"
  by (simp add: Del_def Del_locked_def Unlock_def Lock_def unlink_def)

subsection \<open>The operations preserve the invariants\<close>

lemma invariant_mu [simp]: "invariant (c\<lparr>mu := m\<rparr>) = invariant c"
  by (simp add: invariant_def I1_def I2_def allocated_def entries_def)

lemma invariant_Unlock [simp]: "invariant (Unlock c) = invariant c"
  by (simp add: Unlock_def)

lemma sweep_step:
  assumes "list c = el # rest" "stale c e el"
  shows "sweep c e = sweep (unlink c (key (Value c el)) el) e"
  using assms by (auto simp add: sweep_def stale_def Remove_def Let_def fun_eq_iff unlink_def)

lemma invariant_sweep: "invariant c \<Longrightarrow> invariant (sweep c e)"
proof (induction "length (list c)" arbitrary: c)
  case 0
  then show ?case by (simp add: sweep_fresh_front)
next
  case (Suc n)
  then obtain el rest where l: "list c = el # rest" by (cases "list c") auto
  show ?case
  proof (cases "stale c e el")
    case False
    with l show ?thesis using Suc.prems by (simp add: sweep_fresh_front)
  next
    case True
    have "invariant (unlink c (key (Value c el)) el)"
      using Suc.prems l by (rule invariant_unlink_front)
    moreover have "n = length (list (unlink c (key (Value c el)) el))"
      using Suc.hyps(2) l by (simp add: Remove_def)
    ultimately have "invariant (sweep (unlink c (key (Value c el)) el) e)"
      by (rule Suc.hyps(1) [rotated])
    then show ?thesis using sweep_step [OF l True] by simp
  qed
qed

lemma invariant_MoveToBack:
  assumes "invariant c" "items c k = Some e"
  shows "invariant (c\<lparr>list := MoveToBack e (list c)\<rparr>)"
proof -
  from assms have i1: "I1 c" and i2: "I2 c" and al: "allocated c"
    by (simp_all add: invariant_def)
  note es = entries_Some [OF i1 assms(2)]
  let ?c = "c\<lparr>list := MoveToBack e (list c)\<rparr>"
  have "entries ?c k' = entries c k'" for k'
  proof (cases "last (list c) = e")
    case True
    then show ?thesis by (simp add: entries_def MoveToBack_def)
  next
    case False
    have "entries ?c k' = remove1 e (entries c k') @ (if k' = k then [e] else [])"
      using False es(2,3) by (auto simp: entries_def MoveToBack_def filter_remove1)
    moreover have "e \<notin> set (entries c k')" if "k' \<noteq> k"
      using that es(3) by (simp add: entries_def)
    ultimately show ?thesis using es(1) by (auto simp: remove1_idem)
  qed
  then have "I1 ?c" using i1 by (simp add: I1_def)
  moreover have "I2 ?c" using i2 es(2) by (simp add: I2_def MoveToBack_def length_remove1)
      (metis Suc_pred length_pos_if_in_set)
  moreover have "allocated ?c"
    using al es(2) by (auto simp: allocated_def MoveToBack_def dest: notin_set_remove1)
  ultimately show ?thesis by (simp add: invariant_def)
qed

lemma New_fields [simp]:
  "items (fst (New cfg)) = Map.empty" "list (fst (New cfg)) = []"
  "itemCount (fst (New cfg)) = 0" "config (fst (New cfg)) = cfg" "fresh (fst (New cfg)) = 0"
  "mu (fst (New cfg)) = \<lparr>readers = 0, writer = False\<rparr>"
  by (simp_all add: New_def)

lemma invariant_New: "invariant (fst (New cfg))"
  by (simp add: invariant_def I1_def I2_def allocated_def entries_def)

text \<open>The example cache is what two calls of \<open>Set\<close> make of a new cache.\<close>

lemma two_entries_reached:
  "run (fst (New example_config))
     [CallSet ''a'' (Some 1) 90 10 10, CallSet ''b'' (Some 2) 30 20 20] = Inr two_entries"
  by (simp add: Set_absent sweep_def stale_def Let_def example_config_def link_back_def
      Unlock_def New_def two_entries_def fun_eq_iff)

lemma invariant_Get: "invariant c \<Longrightarrow> invariant (fst (Get c k now))"
proof (cases "items c k")
  case None
  assume "invariant c"
  then show ?thesis using None by (simp add: Get_absent)
next
  case (Some e)
  assume "invariant c"
  then show ?thesis
    using Some by (cases "expire (Value c e) <s now")
      (simp_all add: Get_stale Get_live invariant_unlink)
qed

lemma invariant_Del: "invariant c \<Longrightarrow> invariant (fst (Del c k))"
  by (cases "items c k") (simp_all add: Del_absent Del_present invariant_unlink)

lemma invariant_Set:
  assumes "invariant c" "Set c k x d now1 now2 = Inr (c', err)"
  shows "invariant c'"
proof (cases "items c k")
  case (Some e)
  have "invariant (c\<lparr>list := MoveToBack e (list c)\<rparr>)"
    using assms(1) Some by (rule invariant_MoveToBack)
  then have "invariant (c\<lparr>list := MoveToBack e (list c), mu := (mu c)\<lparr>writer := False\<rparr>\<rparr>)"
    by simp
  moreover have "c' = c\<lparr>list := MoveToBack e (list c), mu := (mu c)\<lparr>writer := False\<rparr>\<rparr>"
    using assms(2) by (simp add: Set_present [OF Some])
  ultimately show ?thesis by simp
next
  case None
  let ?c1 = "sweep c now1"
  let ?t = "now2 + (if d = 0 then Expiration (config c) else d)"
  have i1: "invariant ?c1" using assms(1) by (rule invariant_sweep)
  have n1: "items ?c1 k = None" using None by (rule sweep_items_None)
  show ?thesis
  proof (cases "MaxEntryLimit (config c) \<le> itemCount ?c1")
    case False
    then have "c' = Unlock (link_back ?c1 k x ?t)"
      using assms(2) by (simp add: Set_absent [OF None] Let_def)
    then show ?thesis using invariant_link_back [OF i1 n1] by simp
  next
    case True
    then obtain el rest where l: "list ?c1 = el # rest"
      and c': "c' = Unlock (link_back (unlink ?c1 (key (Value c el)) el) k x ?t)"
      using assms(2)
      by (cases "list ?c1") (simp_all only: Set_absent [OF None] Let_def if_True list.case sum.inject prod.inject, simp)
    have "invariant (unlink ?c1 (key (Value ?c1 el)) el)"
      using i1 l by (rule invariant_unlink_front)
    moreover have "items (unlink ?c1 (key (Value c el)) el) k = None"
      using n1 by simp
    ultimately show ?thesis using c' by (simp add: invariant_link_back)
  qed
qed

subsection \<open>\<open>Set\<close> returns\<close>

lemma I2_sweep: "I2 c \<Longrightarrow> I2 (sweep c e)"
proof -
  assume "I2 c"
  moreover have "length (list c) =
      length (takeWhile (stale c e) (list c)) + length (dropWhile (stale c e) (list c))"
    by (metis length_append takeWhile_dropWhile_id)
  ultimately show ?thesis by (simp add: I2_def)
qed

lemma Set_returns:
  assumes "1 \<le> MaxEntryLimit (config c)" "I2 c"
  shows "\<exists>c'. Set c k x d now1 now2 = Inr (c', None)"
proof (cases "items c k")
  case (Some e)
  then show ?thesis by (simp add: Set_present)
next
  case None
  show ?thesis
  proof (cases "MaxEntryLimit (config c) \<le> itemCount (sweep c now1)")
    case False
    then show ?thesis by (simp add: Set_absent [OF None] Let_def)
  next
    case True
    have "I2 (sweep c now1)" using assms(2) by (rule I2_sweep)
    with True assms(1) have "list (sweep c now1) \<noteq> []"
      by (auto simp: I2_def simp del: sweep_fields)
    then obtain el rest where "list (sweep c now1) = el # rest"
      by (cases "list (sweep c now1)") auto
    then show ?thesis using True
      by (simp only: Set_absent [OF None] Let_def if_True list.case) simp
  qed
qed

subsection \<open>The example cache\<close>

lemma two_entries_invariant: "invariant two_entries"
proof -
  have "invariant (fst (New example_config) :: nat ObjCache)" by (rule invariant_New)
  then show ?thesis
    using two_entries_reached
    by (auto simp: split: sum.splits prod.splits dest: invariant_Set)
qed

lemma two_entries_fields [simp]:
  "items two_entries ''a'' = Some 0" "items two_entries ''b'' = Some 1"
  "items two_entries ''c'' = None"
  "list two_entries = [0, 1]" "itemCount two_entries = 2" "fresh two_entries = 2"
  "config two_entries = example_config"
  "Value two_entries 0 = \<lparr>Object = Some 1, expire = 100, key = ''a''\<rparr>"
  "Value two_entries 1 = \<lparr>Object = Some 2, expire = 50, key = ''b''\<rparr>"
  "Value two_entries (Suc 0) = \<lparr>Object = Some 2, expire = 50, key = ''b''\<rparr>"
  by (simp_all add: two_entries_def)

subsection \<open>Moving to the back\<close>

lemma MoveToBack_distinct:
  assumes "distinct l" "e \<in> set l"
  shows "MoveToBack e l = remove1 e l @ [e]"
proof (cases "last l = e")
  case False
  with assms(2) show ?thesis by (simp add: MoveToBack_def)
next
  case True
  have ne: "l \<noteq> []" using assms(2) by auto
  then have l: "l = butlast l @ [e]" using True by (metis append_butlast_last_id)
  then have "distinct (butlast l @ [e])" using assms(1) by simp
  then have "e \<notin> set (butlast l)" by simp
  then have "remove1 e (butlast l @ [e]) = butlast l" by (simp add: remove1_append)
  then have "remove1 e l @ [e] = l" using l by simp
  then show ?thesis using True by (simp add: MoveToBack_def)
qed

subsection \<open>Two examples\<close>

text \<open>
  The example of the spec: with both \<open>a\<close> and \<open>b\<close> in a cache for two entries,
  \<open>Set\<close> of \<open>a\<close> again and then of a new key \<open>c\<close> evicts \<open>b\<close>; \<open>a\<close> stays, with
  the value it had.
\<close>

lemma refresh_then_insert_example:
  "\<exists>c. run two_entries [CallSet ''a'' (Some 9) 7 30 30, CallSet ''c'' (Some 3) 60 40 40] = Inr c
     \<and> keys c = [''a'', ''c''] \<and> items c ''b'' = None
     \<and> Object (Value c (the (items c ''a''))) = Some 1"
  by (simp add: Set_present Set_absent MoveToBack_def sweep_def stale_def Let_def
      example_config_def Remove_def keys_def)

text \<open>With \<open>MaxEntryLimit = 0\<close> the first \<open>Set\<close> panics in \<open>removeOldest\<close>.\<close>

lemma Set_panics_without_limit:
  "Set (fst (New \<lparr>MaxEntryLimit = 0, Expiration = 5\<rparr>)) ''a'' x 1 0 0
     = Inl NilPointerDereference"
  by (simp add: Set_absent sweep_def Let_def)

subsection \<open>Clock readings and durations\<close>

lemma sint_add_no_wrap:
  fixes a b :: int64
  assumes "- (2 ^ 63) \<le> sint a + sint b" "sint a + sint b < 2 ^ 63"
  shows "sint (a + b) = sint a + sint b"
  using assms by (simp add: sint_word_ariths signed_take_bit_int_eq_self)

lemma negative_ttl_in_past:
  fixes now2 d now :: int64
  assumes "d <s 0" "0 \<le>s now2" "now2 \<le>s now"
  shows "now2 + d <s now"
proof -
  have d: "sint d < 0" and n: "0 \<le> sint now2" and m: "sint now2 \<le> sint now"
    using assms by (simp_all add: word_sless_alt word_sle_eq)
  have lo: "- (2 ^ 63) \<le> sint d" using sint_greater_eq [of d] by simp
  have hi: "sint now2 < 2 ^ 63" using sint_less [of now2] by simp
  have "sint (now2 + d) = sint now2 + sint d"
    using d n lo hi by (intro sint_add_no_wrap) simp_all
  then show ?thesis using d m by (simp add: word_sless_alt)
qed

text \<open>
  A positive duration that reaches beyond the end of \<open>int64\<close> from the clock reading
  wraps: the time of expiry is before the clock reading.
\<close>

lemma ttl_beyond_int64_wraps:
  "(0 :: int64) <s 9223372036854775807 \<and> (10 :: int64) + 9223372036854775807 <s 10"
  by (simp add: word_sless_alt)

subsection \<open>\<open>Set\<close> of a key that is not in the index\<close>

lemma Set_absent_cases:
  assumes "invariant c" "1 \<le> MaxEntryLimit (config c)" "items c k = None"
  shows "\<exists>c2. Set c k x d now1 now2 =
           Inr (Unlock (link_back c2 k x (now2 + (if d = 0 then Expiration (config c) else d))),
                None) \<and>
         invariant c2 \<and> items c2 k = None \<and> fresh c2 = fresh c \<and> config c2 = config c \<and>
         Value c2 = Value c \<and>
         list c2 = (if MaxEntryLimit (config c) \<le> itemCount (sweep c now1)
                    then tl (list (sweep c now1)) else list (sweep c now1)) \<and>
         itemCount c2 = int (length (list c2))"
proof -
  let ?c1 = "sweep c now1"
  have i1: "invariant ?c1" using assms(1) by (rule invariant_sweep)
  have n1: "items ?c1 k = None" using assms(3) by (rule sweep_items_None)
  show ?thesis
  proof (cases "MaxEntryLimit (config c) \<le> itemCount ?c1")
    case False
    have "itemCount ?c1 = int (length (list ?c1))"
      using i1 by (simp only: invariant_def I2_def)
    then show ?thesis using i1 n1 False
      by (intro exI [of _ ?c1]) (simp add: Set_absent [OF assms(3)] Let_def)
  next
    case True
    have "I2 ?c1" using i1 by (simp add: invariant_def)
    with True assms(2) have "list ?c1 \<noteq> []"
      by (auto simp: I2_def simp del: sweep_fields)
    then obtain el rest where l: "list ?c1 = el # rest" by (cases "list ?c1") auto
    let ?c2 = "unlink ?c1 (key (Value c el)) el"
    have "invariant (unlink ?c1 (key (Value ?c1 el)) el)"
      using i1 l by (rule invariant_unlink_front)
    then have i2: "invariant ?c2" by simp
    then have "itemCount ?c2 = int (length (list ?c2))"
      by (simp only: invariant_def I2_def)
    moreover have "Set c k x d now1 now2 =
           Inr (Unlock (link_back ?c2 k x (now2 + (if d = 0 then Expiration (config c) else d))),
                None)"
      using True l by (simp only: Set_absent [OF assms(3)] Let_def if_True list.case)
    moreover have "list ?c2 = tl (list ?c1)" using l by (simp add: Remove_def)
    moreover have "items ?c2 k = None" using n1 by simp
    moreover have "fresh ?c2 = fresh c" "config ?c2 = config c" "Value ?c2 = Value c"
      by simp_all
    ultimately show ?thesis using i2 True
      by (intro exI [of _ ?c2]) (simp del: sweep_fields unlink_fields)
  qed
qed

subsection \<open>Insertions of distinct keys\<close>

lemma items_None_if_no_entry:
  assumes "I1 c" "k \<notin> set (keys c)"
  shows "items c k = None"
proof (cases "items c k")
  case (Some e)
  then have "e \<in> set (list c)" "key (Value c e) = k"
    using assms(1) by (simp_all add: entries_Some)
  then have "k \<in> set (keys c)" by (auto simp: keys_def)
  with assms(2) show ?thesis by simp
qed simp

lemma drop_snoc_window:
  assumes "1 \<le> n"
  shows "(if n \<le> length (drop (length ks - n) ks)
          then tl (drop (length ks - n) ks) else drop (length ks - n) ks) @ [k]
         = drop (length (ks @ [k]) - n) (ks @ [k])"
proof (cases "n \<le> length ks")
  case True
  then have "Suc (length ks) - n = Suc (length ks - n)" by simp
  then show ?thesis using True assms by (simp add: drop_Suc tl_drop)
next
  case False
  then show ?thesis by simp
qed

lemma Set_fresh_key:
  assumes inv: "invariant c" and lim: "MaxEntryLimit (config c) = int n" "1 \<le> n"
    and win: "keys c = drop (length ks - n) ks" and new: "k \<notin> set ks"
    and live: "\<forall>e \<in> set (list c). \<not> expire (Value c e) <s now1"
  shows "\<exists>c'. Set c k x d now1 now2 = Inr (c', None) \<and> invariant c' \<and>
           config c' = config c \<and> keys c' = drop (length (ks @ [k]) - n) (ks @ [k]) \<and>
           (\<forall>e \<in> set (list c').
              expire (Value c' e) = expiry (config c) (k, x, d, now1, now2) \<or>
              e \<in> set (list c) \<and> Value c' e = Value c e)"
proof -
  have "set (keys c) \<subseteq> set ks" unfolding win by (rule set_drop_subset)
  then have absent: "items c k = None"
    using inv new by (intro items_None_if_no_entry) (auto simp: invariant_def)
  have sw: "sweep c now1 = c"
    using live by (intro sweep_fresh_front) (cases "list c", auto simp: stale_def)
  have len: "itemCount c = int (length (keys c))"
    using inv by (simp add: invariant_def I2_def keys_def)
  let ?t = "now2 + (if d = 0 then Expiration (config c) else d)"
  obtain c2 where s: "Set c k x d now1 now2 = Inr (Unlock (link_back c2 k x ?t), None)"
    and i2: "invariant c2" and n2: "items c2 k = None" and f2: "fresh c2 = fresh c"
    and g2: "config c2 = config c" and v2: "Value c2 = Value c"
    and l2: "list c2 = (if MaxEntryLimit (config c) \<le> itemCount c then tl (list c) else list c)"
    using Set_absent_cases [of c k x d now1 now2] inv lim absent unfolding sw by auto
  let ?c' = "Unlock (link_back c2 k x ?t)"
  have sub: "set (list c2) \<subseteq> set (list c)"
    unfolding l2 by (cases "list c") auto
  have old: "e \<noteq> fresh c" if "e \<in> set (list c)" for e
    using that inv by (auto simp: invariant_def allocated_def)
  have k2: "keys c2 = (if n \<le> length (keys c) then tl (keys c) else keys c)"
    using lim(1) len by (simp add: keys_def l2 v2 map_tl)
  have "map (\<lambda>e. key (Value ?c' e)) (list c2) = keys c2"
    unfolding keys_def using sub old by (intro map_cong) (auto simp: f2 v2)
  then have "keys ?c' = keys c2 @ [k]" by (simp add: keys_def)
  then have kk: "keys ?c' = drop (length (ks @ [k]) - n) (ks @ [k])"
    unfolding k2 win using drop_snoc_window [OF lim(2), of ks k] by simp
  have vals: "expire (Value ?c' e) = expiry (config c) (k, x, d, now1, now2) \<or>
              e \<in> set (list c) \<and> Value ?c' e = Value c e" if "e \<in> set (list ?c')" for e
  proof (cases "e = fresh c")
    case True
    then show ?thesis by (simp add: expiry_def f2)
  next
    case False
    then have "e \<in> set (list c)" using that sub by (auto simp: f2)
    then show ?thesis using False by (simp add: f2 v2)
  qed
  have "invariant ?c'" using invariant_link_back [OF i2 n2] by simp
  then show ?thesis using s kk vals g2 by (intro exI [of _ ?c']) simp
qed

lemma call_of_tuple [simp]: "call_of (k, x, d, now1, now2) = CallSet k x d now1 now2"
  by (simp add: call_of_def)

lemma insert_all:
  assumes "1 \<le> n"
  shows "invariant c \<Longrightarrow> MaxEntryLimit (config c) = int n \<Longrightarrow>
    keys c = drop (length ks - n) ks \<Longrightarrow> distinct (ks @ map fst ins) \<Longrightarrow>
    unexpired (config c) ins \<Longrightarrow>
    (\<forall>e \<in> set (list c). \<forall>j \<in> set ins. \<not> expire (Value c e) <s sweep_time j) \<Longrightarrow>
    \<exists>c'. run c (map call_of ins) = Inr c' \<and> invariant c' \<and>
      keys c' = drop (length (ks @ map fst ins) - n) (ks @ map fst ins)"
proof (induction ins arbitrary: c ks)
  case Nil
  then show ?case by simp
next
  case (Cons i ins)
  obtain k x d now1 now2 where i: "i = (k, x, d, now1, now2)" by (cases i) auto
  have new: "k \<notin> set ks" using Cons.prems(4) by (auto simp: i)
  have live: "\<forall>e \<in> set (list c). \<not> expire (Value c e) <s now1"
    using Cons.prems(6) by (simp add: i sweep_time_def)
  obtain c' where s: "Set c k x d now1 now2 = Inr (c', None)" and inv: "invariant c'"
    and cfg: "config c' = config c"
    and win: "keys c' = drop (length (ks @ [k]) - n) (ks @ [k])"
    and vals: "\<forall>e \<in> set (list c').
              expire (Value c' e) = expiry (config c) (k, x, d, now1, now2) \<or>
              e \<in> set (list c) \<and> Value c' e = Value c e"
    using Set_fresh_key [OF Cons.prems(1,2) assms Cons.prems(3) new live, of x d now2]
    by blast
  have later: "\<forall>e \<in> set (list c'). \<forall>j \<in> set ins. \<not> expire (Value c' e) <s sweep_time j"
  proof (intro ballI)
    fix e j assume e: "e \<in> set (list c')" and j: "j \<in> set ins"
    from vals e consider "expire (Value c' e) = expiry (config c) i"
      | "e \<in> set (list c)" "Value c' e = Value c e" by (auto simp: i)
    then show "\<not> expire (Value c' e) <s sweep_time j"
    proof cases
      case 1
      then show ?thesis using Cons.prems(5) j by simp
    next
      case 2
      then show ?thesis using Cons.prems(6) j by simp
    qed
  qed
  have "\<exists>c''. run c' (map call_of ins) = Inr c'' \<and> invariant c'' \<and>
      keys c'' = drop (length ((ks @ [k]) @ map fst ins) - n) ((ks @ [k]) @ map fst ins)"
    using inv Cons.prems(2,4,5) later win
    by (intro Cons.IH) (simp_all add: cfg i)
  then show ?case using s by (simp add: i)
qed

subsection \<open>The count stays within the limit\<close>

lemma Set_config: "Set c k x d now1 now2 = Inr (c', err) \<Longrightarrow> config c' = config c"
  by (cases "items c k")
    (auto simp: Set_absent Set_present Let_def split: if_splits list.splits)

lemma Get_config [simp]: "config (fst (Get c k now)) = config c"
  by (cases "items c k"; cases "expire (Value c (the (items c k))) <s now")
    (simp_all add: Get_absent Get_stale Get_live)

lemma Del_config [simp]: "config (fst (Del c k)) = config c"
  by (cases "items c k") (simp_all add: Del_absent Del_present)

lemma Get_count: "itemCount (fst (Get c k now)) \<le> itemCount c"
  by (cases "items c k"; cases "expire (Value c (the (items c k))) <s now")
    (simp_all add: Get_absent Get_stale Get_live)

lemma Del_count: "itemCount (fst (Del c k)) \<le> itemCount c"
  by (cases "items c k") (simp_all add: Del_absent Del_present)

lemma Set_count:
  assumes "itemCount c \<le> MaxEntryLimit (config c)" "Set c k x d now1 now2 = Inr (c', err)"
  shows "itemCount c' \<le> MaxEntryLimit (config c)"
proof (cases "items c k")
  case (Some e)
  then show ?thesis using assms by (auto simp: Set_present)
next
  case None
  have "itemCount (sweep c now1) \<le> itemCount c" by simp
  then show ?thesis using assms
    by (auto simp: Set_absent [OF None] Let_def simp del: sweep_fields
        split: if_splits list.splits)
qed

lemma run_bounded:
  "invariant c \<Longrightarrow> 1 \<le> MaxEntryLimit (config c) \<Longrightarrow>
   itemCount c \<le> MaxEntryLimit (config c) \<Longrightarrow>
   \<exists>c'. run c calls = Inr c' \<and> invariant c' \<and> config c' = config c \<and>
     itemCount c' \<le> MaxEntryLimit (config c)"
proof (induction calls arbitrary: c)
  case Nil
  then show ?case by simp
next
  case (Cons a calls)
  show ?case
  proof (cases a)
    case (CallSet k x d now1 now2)
    obtain c1 where s: "Set c k x d now1 now2 = Inr (c1, None)"
      using Set_returns [of c k x d now1 now2] Cons.prems by (auto simp: invariant_def)
    have "invariant c1" using Cons.prems(1) s by (rule invariant_Set)
    moreover have g: "config c1 = config c" using s by (rule Set_config)
    moreover have "itemCount c1 \<le> MaxEntryLimit (config c)"
      using Cons.prems(3) s by (rule Set_count)
    ultimately show ?thesis
      using Cons.IH [of c1] Cons.prems(2) s CallSet by simp
  next
    case (CallGet k now)
    have "itemCount (fst (Get c k now)) \<le> MaxEntryLimit (config c)"
      using Get_count [of c k now] Cons.prems(3) by simp
    then show ?thesis
      using Cons.IH [of "fst (Get c k now)"] Cons.prems(1,2) CallGet
      by (simp add: invariant_Get)
  next
    case (CallDel k)
    have "itemCount (fst (Del c k)) \<le> MaxEntryLimit (config c)"
      using Del_count [of c k] Cons.prems(3) by simp
    then show ?thesis
      using Cons.IH [of "fst (Del c k)"] Cons.prems(1,2) CallDel
      by (simp add: invariant_Del)
  qed
qed

subsection \<open>The round trip for a key that is not in the index\<close>

text \<open>
  \<open>Set\<close> of a key that is not in the index, then \<open>Get\<close> of it at a clock reading
  at which the new entry has not expired, returns the value that was set; an entry with
  a positive time to live has not expired at the clock reading of its \<open>Set\<close>, unless the
  sum of the two leaves the range of \<open>int64\<close>.
\<close>

lemma Set_Get_round_trip_absent:
  assumes "invariant c" "1 \<le> MaxEntryLimit (config c)" "items c k = None"
    and "\<not> now2 + (if d = 0 then Expiration (config c) else d) <s now"
  shows "\<exists>c'. Set c k x d now1 now2 = Inr (c', None) \<and> Get c' k now = (c', x, True)"
proof -
  let ?t = "now2 + (if d = 0 then Expiration (config c) else d)"
  obtain c2 where s: "Set c k x d now1 now2 = Inr (Unlock (link_back c2 k x ?t), None)"
    using Set_absent_cases [OF assms(1-3), of x d now1 now2] by auto
  let ?c' = "Unlock (link_back c2 k x ?t)"
  have "items ?c' k = Some (fresh c2)" by simp
  moreover have "\<not> expire (Value ?c' (fresh c2)) <s now" using assms(4) by simp
  ultimately have "Get ?c' k now = (?c', Object (Value ?c' (fresh c2)), True)"
    by (rule Get_live)
  then show ?thesis using s by simp
qed

lemma positive_ttl_not_expired:
  fixes now2 t :: int64
  assumes "0 <s t" "sint now2 + sint t < 2 ^ 63"
  shows "\<not> now2 + t <s now2"
proof -
  have t: "0 < sint t" using assms(1) by (simp add: word_sless_alt)
  have "- (2 ^ 63) \<le> sint now2" using sint_greater_eq [of now2] by simp
  then have "sint (now2 + t) = sint now2 + sint t"
    using t assms(2) by (intro sint_add_no_wrap) simp_all
  then show ?thesis using t by (simp add: word_sless_alt)
qed

section \<open>The claims\<close>

text \<open>
  C1. The round trip fails for a key that is already in the index: \<open>Set\<close> takes the
  branch of lines 73 to 75, which stores neither the value nor a new \<open>expire\<close>. In the
  example cache, \<open>a\<close> holds 1 and \<open>b\<close>, which expired at 50, holds 2. After
  \<open>Set("a", 9, 7)\<close> at clock reading 30, \<open>Get("a")\<close> at 30 returns \<open>(1, true)\<close>, not
  \<open>(9, true)\<close>. After \<open>Set("b", 2, 1000)\<close> at clock reading 60, \<open>Get("b")\<close> at 60
  returns \<open>(nil, false)\<close>.
\<close>

theorem Set_of_present_key_is_not_read_back:
  "Set two_entries ''a'' (Some 9) 7 30 30 = Inr (two_entries\<lparr>list := [1, 0]\<rparr>, None) \<and>
   snd (Get (two_entries\<lparr>list := [1, 0]\<rparr>) ''a'' 30) = (Some 1, True) \<and>
   Set two_entries ''b'' (Some 2) 1000 60 60 = Inr (two_entries, None) \<and>
   snd (Get two_entries ''b'' 60) = (None, False)"
proof -
  have m: "(mu two_entries)\<lparr>writer := False\<rparr> = mu two_entries"
    by (simp add: two_entries_def)
  have "Set two_entries ''a'' (Some 9) 7 30 30 = Inr (two_entries\<lparr>list := [1, 0]\<rparr>, None)"
    using m by (simp add: Set_present MoveToBack_def)
  moreover have "snd (Get (two_entries\<lparr>list := [1, 0]\<rparr>) ''a'' 30) = (Some 1, True)"
    by (simp add: Get_live)
  moreover have "Set two_entries ''b'' (Some 2) 1000 60 60 = Inr (two_entries, None)"
    using m by (simp add: Set_present MoveToBack_def)
  moreover have "snd (Get two_entries ''b'' 60) = (None, False)"
    by (simp add: Get_stale)
  ultimately show ?thesis by simp
qed

text \<open>
  C2. \<open>Set(k, x, d)\<close> for a key that is in the index returns \<open>nil\<close> and changes the
  sequence only, by \<open>MoveToBack\<close> of the key's element: the index, the count, every
  stored value and every \<open>expire\<close> stay as they are, whatever \<open>x\<close>, \<open>d\<close> and the clock
  are, and whether or not the front entry is stale or the cache is full. Under the
  invariants the element goes to the back and the other elements keep their order.
\<close>

theorem Set_present_only_moves:
  "items c k = Some e \<Longrightarrow>
   Set c k x d now1 now2 =
     Inr (c\<lparr>list := MoveToBack e (list c), mu := (mu c)\<lparr>writer := False\<rparr>\<rparr>, None) \<and>
   (invariant c \<longrightarrow> MoveToBack e (list c) = remove1 e (list c) @ [e])"
proof
  assume s: "items c k = Some e"
  then show "Set c k x d now1 now2 =
     Inr (c\<lparr>list := MoveToBack e (list c), mu := (mu c)\<lparr>writer := False\<rparr>\<rparr>, None)"
    by (rule Set_present)
  show "invariant c \<longrightarrow> MoveToBack e (list c) = remove1 e (list c) @ [e]"
  proof
    assume "invariant c"
    then have "I1 c" by (simp add: invariant_def)
    then show "MoveToBack e (list c) = remove1 e (list c) @ [e]"
      using s by (intro MoveToBack_distinct I1_distinct entries_Some(2))
  qed
qed

theorem Set_present_only_moves_witness:
  "items two_entries ''a'' = Some 0 \<and> invariant two_entries \<and>
   stale two_entries 200 0 \<and> MaxEntryLimit (config two_entries) \<le> itemCount two_entries \<and>
   Set two_entries ''a'' (Some 9) 7 200 200 = Inr (two_entries\<lparr>list := [1, 0]\<rparr>, None)"
proof -
  have h: "items two_entries ''a'' = Some 0" by simp
  have "mu two_entries = \<lparr>readers = 0, writer = False\<rparr>" by (simp add: two_entries_def)
  then have "two_entries\<lparr>list := [1, 0], mu := (mu two_entries)\<lparr>writer := False\<rparr>\<rparr> =
     two_entries\<lparr>list := [1, 0]\<rparr>" by simp
  then show ?thesis
    using Set_present_only_moves [OF h, of "Some 9" 7 200 200] two_entries_invariant
    by (simp add: stale_def example_config_def)
qed

text \<open>
  C3. In a cache made by \<open>New\<close> with \<open>MaxEntryLimit = N\<close>, \<open>N\<close> at least 1:
  \<open>N + 1\<close> calls of \<open>Set\<close> with distinct keys, none of whose entries has expired when a
  later call sweeps, all return, and leave \<open>N\<close> entries in the sequence and a count of
  \<open>N\<close>: the entries of the last \<open>N\<close> keys, in the order of the calls. The first key is
  not in the index any more, so \<open>Get\<close> of it returns \<open>(nil, false)\<close> at every clock
  reading. And after every sequence of \<open>Set\<close>, \<open>Get\<close> and \<open>Del\<close> calls, the count is at
  most \<open>MaxEntryLimit\<close>.
\<close>

theorem capacity_bound:
  assumes "1 \<le> N" "MaxEntryLimit cfg = int N"
  shows "(\<forall>ins :: 'v insertion list. length ins = Suc N \<and> distinct (map fst ins) \<and> unexpired cfg ins \<longrightarrow>
            (\<exists>c. run (fst (New cfg)) (map call_of ins) = Inr c \<and>
               length (list c) = N \<and> itemCount c = int N \<and> keys c = tl (map fst ins) \<and>
               (\<forall>now. Get c (fst (hd ins)) now = (c, None, False)))) \<and>
         (\<forall>calls :: 'v call list.
            \<exists>c. run (fst (New cfg)) calls = Inr c \<and> itemCount c \<le> MaxEntryLimit cfg)"
proof (intro conjI allI impI)
  fix calls :: "'v call list"
  show "\<exists>c. run (fst (New cfg)) calls = Inr c \<and> itemCount c \<le> MaxEntryLimit cfg"
    using run_bounded [of "fst (New cfg)" calls] assms by (auto simp: invariant_New)
next
  fix ins :: "'v insertion list"
  assume h: "length ins = Suc N \<and> distinct (map fst ins) \<and> unexpired cfg ins"
  let ?c0 = "fst (New cfg) :: 'v ObjCache"
  have "keys ?c0 = drop (length ([] :: string list) - N) []" by (simp add: keys_def)
  then obtain c where r: "run ?c0 (map call_of ins) = Inr c" and inv: "invariant c"
    and win: "keys c = drop (length ([] @ map fst ins) - N) ([] @ map fst ins)"
    using insert_all [OF assms(1), of ?c0 "[]" ins] h assms(2) by (auto simp: invariant_New)
  have k: "keys c = tl (map fst ins)" using win h by (simp add: drop_Suc)
  have len: "length (list c) = length (keys c)" by (simp add: keys_def)
  then have l: "length (list c) = N" using k h by simp
  have cnt: "itemCount c = int N" using inv l by (simp add: invariant_def I2_def)
  obtain i rest where ins: "ins = i # rest" using h by (cases ins) auto
  have "fst (hd ins) \<notin> set (keys c)" using h by (simp add: k ins)
  then have "items c (fst (hd ins)) = None"
    using inv by (intro items_None_if_no_entry) (simp_all add: invariant_def)
  then have "\<forall>now. Get c (fst (hd ins)) now = (c, None, False)" by (simp add: Get_absent)
  then show "\<exists>c. run ?c0 (map call_of ins) = Inr c \<and>
               length (list c) = N \<and> itemCount c = int N \<and> keys c = tl (map fst ins) \<and>
               (\<forall>now. Get c (fst (hd ins)) now = (c, None, False))"
    using r l cnt k by blast
qed

theorem capacity_bound_witness:
  "(1 :: nat) \<le> 2 \<and> MaxEntryLimit example_config = int 2 \<and>
   length [(''a'', Some (1 :: nat), 90 :: int64, 10 :: int64, 10 :: int64),
           (''b'', Some 2, 30, 20, 20), (''c'', Some 3, 40, 30, 30)] = Suc 2 \<and>
   distinct (map fst [(''a'', Some (1 :: nat), 90 :: int64, 10 :: int64, 10 :: int64),
           (''b'', Some 2, 30, 20, 20), (''c'', Some 3, 40, 30, 30)]) \<and>
   unexpired example_config [(''a'', Some (1 :: nat), 90, 10, 10),
           (''b'', Some 2, 30, 20, 20), (''c'', Some 3, 40, 30, 30)] \<and>
   (\<exists>c. run (fst (New example_config))
           [CallSet ''a'' (Some (1 :: nat)) 90 10 10, CallSet ''b'' (Some 2) 30 20 20,
            CallSet ''c'' (Some 3) 40 30 30] = Inr c \<and>
        length (list c) = 2 \<and> itemCount c = 2 \<and> keys c = [''b'', ''c''] \<and>
        Get c ''a'' 30 = (c, None, False))"
proof -
  let ?ins = "[(''a'', Some (1 :: nat), 90 :: int64, 10 :: int64, 10 :: int64),
           (''b'', Some 2, 30, 20, 20), (''c'', Some 3, 40, 30, 30)]"
  have n: "(1 :: nat) \<le> 2" by simp
  have m: "MaxEntryLimit example_config = int 2" by (simp add: example_config_def)
  have h: "length ?ins = Suc 2 \<and> distinct (map fst ?ins) \<and> unexpired example_config ?ins"
    by (simp add: expiry_def sweep_time_def example_config_def)
  obtain c where "run (fst (New example_config)) (map call_of ?ins) = Inr c"
    "length (list c) = 2" "itemCount c = int 2" "keys c = tl (map fst ?ins)"
    "\<forall>now. Get c (fst (hd ?ins)) now = (c, None, False)"
    using capacity_bound [OF n m] h by blast
  then have "run (fst (New example_config))
           [CallSet ''a'' (Some (1 :: nat)) 90 10 10, CallSet ''b'' (Some 2) 30 20 20,
            CallSet ''c'' (Some 3) 40 30 30] = Inr c \<and>
        length (list c) = 2 \<and> itemCount c = 2 \<and> keys c = [''b'', ''c''] \<and>
        Get c ''a'' 30 = (c, None, False)"
    by simp
  then show ?thesis using n m h by blast
qed

text \<open>
  C4. \<open>removeExpired\<close> is the sweep of the spec: it removes the longest run of stale
  entries at the front, each from the index, the sequence and the count, and nothing
  else. It leaves an empty sequence as it is, and a sequence whose front entry is not
  stale too, whatever is stale behind the front. \<open>Set\<close> for a key that is not in the index
  starts with it: the sequence after the call is the swept sequence, without its front
  if the count after the sweep had reached \<open>MaxEntryLimit\<close>, and with the new element
  at the back.
\<close>

theorem removeExpired_sweeps_front:
  "removeExpired c e = sweep c e \<and>
   (list c = [] \<longrightarrow> removeExpired c e = c) \<and>
   (\<forall>el rest. list c = el # rest \<and> \<not> expire (Value c el) <s e \<longrightarrow> removeExpired c e = c) \<and>
   (\<forall>k x d now2 c' err. items c k = None \<and> Set c k x d e now2 = Inr (c', err) \<longrightarrow>
      list c' =
        (if MaxEntryLimit (config c) \<le> itemCount (removeExpired c e)
         then tl (list (removeExpired c e)) else list (removeExpired c e)) @ [fresh c])"
proof (intro conjI allI impI)
  show "removeExpired c e = sweep c e" by (rule removeExpired_sweep)
  show "removeExpired c e = c" if "list c = []"
    using that by (simp add: removeExpired_sweep sweep_fresh_front)
  show "removeExpired c e = c" if "list c = el # rest \<and> \<not> expire (Value c el) <s e" for el rest
    using that by (simp add: removeExpired_sweep sweep_fresh_front stale_def)
  show "list c' =
        (if MaxEntryLimit (config c) \<le> itemCount (removeExpired c e)
         then tl (list (removeExpired c e)) else list (removeExpired c e)) @ [fresh c]"
    if h: "items c k = None \<and> Set c k x d e now2 = Inr (c', err)" for k x d now2 c' err
  proof (cases "MaxEntryLimit (config c) \<le> itemCount (sweep c e)")
    case False
    then show ?thesis using h by (auto simp: Set_absent removeExpired_sweep Let_def)
  next
    case True
    from h have n: "items c k = None" and s: "Set c k x d e now2 = Inr (c', err)"
      by simp_all
    show ?thesis
    proof (cases "list (sweep c e)")
      case Nil
      then show ?thesis using s True
        by (simp only: Set_absent [OF n] Let_def if_True list.case) simp
    next
      case (Cons el rest)
      then have "c' = Unlock (link_back (unlink (sweep c e) (key (Value c el)) el) k x
          (now2 + (if d = 0 then Expiration (config c) else d)))"
        using s True by (simp only: Set_absent [OF n] Let_def if_True list.case) simp
      then show ?thesis using True Cons
        by (simp only: removeExpired_sweep if_True Unlock_fields link_back_fields
            unlink_fields Remove_def) simp
    qed
  qed
qed

theorem removeExpired_sweeps_front_witness:
  "list two_entries = [0, 1] \<and> \<not> expire (Value two_entries 0) <s 60 \<and>
   expire (Value two_entries 1) <s 60 \<and>
   removeExpired two_entries 60 = two_entries \<and>
   list (removeExpired two_entries 200) = [] \<and>
   itemCount (removeExpired two_entries 200) = 0 \<and>
   items (removeExpired two_entries 200) ''a'' = None \<and>
   items (removeExpired two_entries 200) ''b'' = None \<and>
   items two_entries ''c'' = None \<and>
   (\<exists>c'. Set two_entries ''c'' (Some 3) 40 60 60 = Inr (c', None) \<and> list c' = [1, 2])"
proof -
  have a: "list two_entries = [0, 1] \<and> \<not> expire (Value two_entries 0) <s 60" by simp
  have b: "sweep two_entries 200 =
      two_entries\<lparr>itemCount := 0, items := Map.empty, list := []\<rparr>"
    by (simp add: sweep_def stale_def fun_eq_iff two_entries_def)
  obtain c' where s: "Set two_entries ''c'' (Some 3) 40 60 60 = Inr (c', None)"
    using Set_returns [of two_entries "''c''" "Some 3" 40 60 60]
    by (auto simp: example_config_def I2_def)
  have n: "items two_entries ''c'' = None" by simp
  note t = removeExpired_sweeps_front [of two_entries 60]
  note u = removeExpired_sweeps_front [of two_entries 200]
  have 1: "removeExpired two_entries 60 = two_entries" using t a by blast
  have 2: "removeExpired two_entries 200 = sweep two_entries 200" using u by blast
  have "list c' =
        (if MaxEntryLimit (config two_entries) \<le> itemCount (removeExpired two_entries 60)
         then tl (list (removeExpired two_entries 60)) else list (removeExpired two_entries 60))
        @ [fresh two_entries]"
    using t n s by blast
  then have 3: "list c' = [1, 2]"
    unfolding 1 by (simp add: example_config_def)
  show ?thesis using a 1 2 3 b s by simp
qed

text \<open>
  C5. The three outcomes of \<open>Get(k)\<close>. If \<open>k\<close> is not in the index, the result is
  \<open>(nil, false)\<close> and the cache is as before. If \<open>k\<close> is in the index and its entry's
  \<open>expire\<close> is before the clock reading, the key leaves the index, its element is unlinked
  from the sequence (where the invariants place it), the count goes down by one, and the
  result is \<open>(nil, false)\<close>. If \<open>k\<close> is in the index and its entry is not stale, the
  result is the stored value with \<open>true\<close>, and the cache is as before.
\<close>

theorem Get_outcomes:
  "(items c k = None \<longrightarrow> Get c k now = (c, None, False)) \<and>
   (\<forall>e. items c k = Some e \<and> expire (Value c e) <s now \<longrightarrow>
      Get c k now =
        (c\<lparr>itemCount := itemCount c - 1, items := (items c)(k := None),
           list := Remove e (list c)\<rparr>, None, False) \<and>
      (invariant c \<longrightarrow> e \<in> set (list c) \<and> e \<notin> set (Remove e (list c)))) \<and>
   (\<forall>e. items c k = Some e \<and> \<not> expire (Value c e) <s now \<longrightarrow>
      Get c k now = (c, Object (Value c e), True))"
proof (intro conjI allI impI)
  show "Get c k now = (c, None, False)" if "items c k = None"
    using that by (rule Get_absent)
  show "Get c k now = (c, Object (Value c e), True)"
    if "items c k = Some e \<and> \<not> expire (Value c e) <s now" for e
    using that by (simp add: Get_live)
  show "Get c k now =
        (c\<lparr>itemCount := itemCount c - 1, items := (items c)(k := None),
           list := Remove e (list c)\<rparr>, None, False)"
    if "items c k = Some e \<and> expire (Value c e) <s now" for e
    using that by (simp add: Get_stale unlink_def)
  show "e \<in> set (list c)"
    if "items c k = Some e \<and> expire (Value c e) <s now" "invariant c" for e
    using that entries_Some(2) [of c k e] by (simp add: invariant_def)
  show "e \<notin> set (Remove e (list c))"
    if "items c k = Some e \<and> expire (Value c e) <s now" "invariant c" for e
    using that I1_distinct [of c] by (simp add: invariant_def Remove_def)
qed

theorem Get_outcomes_witness:
  "items two_entries ''c'' = None \<and> Get two_entries ''c'' 60 = (two_entries, None, False) \<and>
   items two_entries ''b'' = Some 1 \<and> expire (Value two_entries 1) <s 60 \<and>
   invariant two_entries \<and>
   snd (Get two_entries ''b'' 60) = (None, False) \<and>
   list (fst (Get two_entries ''b'' 60)) = [0] \<and>
   itemCount (fst (Get two_entries ''b'' 60)) = 1 \<and>
   items (fst (Get two_entries ''b'' 60)) ''b'' = None \<and>
   items two_entries ''a'' = Some 0 \<and> \<not> expire (Value two_entries 0) <s 60 \<and>
   Get two_entries ''a'' 60 = (two_entries, Some 1, True)"
  using Get_outcomes [of two_entries "''c''" 60] Get_outcomes [of two_entries "''b''" 60]
    Get_outcomes [of two_entries "''a''" 60] two_entries_invariant
  by (simp add: Remove_def)

text \<open>
  C6. I1 and I2 (with the well-formedness of the heap) hold of the cache that \<open>New\<close>
  returns, and each of \<open>Set\<close>, \<open>Get\<close> and \<open>Del\<close>, called on a cache where they hold,
  returns a cache where they hold: a key is in the index exactly when one entry of the
  sequence has that key, the index maps the key to the element that holds this entry,
  and \<open>itemCount\<close> is the length of the sequence.
\<close>

theorem invariants_preserved:
  "invariant (fst (New cfg)) \<and>
   (invariant c \<longrightarrow>
      (\<forall>c' err. Set c k x d now1 now2 = Inr (c', err) \<longrightarrow> invariant c') \<and>
      invariant (fst (Get c k now)) \<and>
      invariant (fst (Del c k)))"
  using invariant_New invariant_Set invariant_Get invariant_Del by blast

theorem invariants_preserved_witness:
  "invariant (fst (New example_config) :: nat ObjCache) \<and> invariant two_entries \<and>
   (\<exists>c'. Set two_entries ''c'' (Some 3) 40 60 70 = Inr (c', None) \<and> invariant c') \<and>
   invariant (fst (Get two_entries ''c'' 65)) \<and>
   invariant (fst (Del two_entries ''c''))"
proof -
  obtain c' where s: "Set two_entries ''c'' (Some 3) 40 60 70 = Inr (c', None)"
    using Set_returns [of two_entries "''c''" "Some 3" 40 60 70]
    by (auto simp: example_config_def I2_def)
  show ?thesis
    using invariants_preserved [of example_config two_entries "''c''" "Some 3" 40 60 70 65]
      two_entries_invariant s
    by simp
qed

text \<open>
  C7. With \<open>MaxEntryLimit\<close> at least 1 and I2, \<open>Set\<close> does not panic and returns the
  \<open>nil\<close> error: where the count after the sweep has reached \<open>MaxEntryLimit\<close> the
  sequence has a front element, so \<open>removeOldest\<close> returns. \<open>New\<close> returns a cache and the
  \<open>nil\<close> error for every configuration.
\<close>

theorem Set_never_fails:
  "1 \<le> MaxEntryLimit (config c) \<Longrightarrow> I2 c \<Longrightarrow>
   (\<exists>c'. Set c k x d now1 now2 = Inr (c', None)) \<and>
   (MaxEntryLimit (config c) \<le> itemCount (removeExpired (Lock c) now1) \<longrightarrow>
      Front (list (removeExpired (Lock c) now1)) \<noteq> None \<and>
      (\<exists>c2. removeOldest (removeExpired (Lock c) now1) = Inr c2)) \<and>
   (\<exists>c0. New cfg = (c0 :: 'v ObjCache, None))"
proof (intro conjI impI)
  assume m: "1 \<le> MaxEntryLimit (config c)" and i: "I2 c"
  then show "\<exists>c'. Set c k x d now1 now2 = Inr (c', None)" by (rule Set_returns)
  show "\<exists>c0. New cfg = (c0 :: 'v ObjCache, None)" by (simp add: New_def)
  assume f: "MaxEntryLimit (config c) \<le> itemCount (removeExpired (Lock c) now1)"
  have "I2 (sweep c now1)" using i by (rule I2_sweep)
  with f m have "list (sweep c now1) \<noteq> []"
    by (auto simp: removeExpired_sweep sweep_Lock I2_def simp del: sweep_fields)
  then obtain el rest where l: "list (sweep c now1) = el # rest"
    by (cases "list (sweep c now1)") auto
  then show "Front (list (removeExpired (Lock c) now1)) \<noteq> None"
    by (simp only: removeExpired_sweep sweep_Lock Lock_fields Front_def) simp
  show "\<exists>c2. removeOldest (removeExpired (Lock c) now1) = Inr c2"
    using l by (simp only: removeExpired_sweep sweep_Lock Lock_fields removeOldest_eq) simp
qed

theorem Set_never_fails_witness:
  "1 \<le> MaxEntryLimit (config two_entries) \<and> I2 two_entries \<and>
   MaxEntryLimit (config two_entries) \<le> itemCount (removeExpired (Lock two_entries) 60) \<and>
   (\<exists>c'. Set two_entries ''c'' (Some 3) 40 60 70 = Inr (c', None)) \<and>
   (\<exists>c2. removeOldest (removeExpired (Lock two_entries) 60) = Inr c2) \<and>
   (\<exists>c0. New example_config = (c0 :: nat ObjCache, None))"
proof -
  have m: "1 \<le> MaxEntryLimit (config two_entries)" by (simp add: example_config_def)
  have i: "I2 two_entries" by (simp add: I2_def)
  have "sweep two_entries 60 = two_entries" by (simp add: sweep_fresh_front stale_def)
  then have f: "MaxEntryLimit (config two_entries) \<le> itemCount (removeExpired (Lock two_entries) 60)"
    by (simp add: removeExpired_sweep sweep_Lock example_config_def)
  show ?thesis
    using Set_never_fails [OF m i, of "''c''" "Some 3" 40 60 70 example_config] m i f
    by blast
qed

text \<open>
  C8. \<open>Del(k)\<close> of a key that is not in the index returns \<open>false\<close>, and the index, the
  sequence, the count and the heap are as before: the state differs from the one before
  the call only in that the mutex has been released. \<open>Del(k)\<close> of a key in the index
  removes it from the index, unlinks its element, takes one off the count and returns
  \<open>true\<close>; a second \<open>Del(k)\<close> right after it returns \<open>false\<close> and changes nothing.
\<close>

theorem Del_outcomes:
  "(items c k = None \<longrightarrow> Del c k = (c\<lparr>mu := (mu c)\<lparr>writer := False\<rparr>\<rparr>, False)) \<and>
   (\<forall>e. items c k = Some e \<longrightarrow>
      Del c k =
        (c\<lparr>itemCount := itemCount c - 1, items := (items c)(k := None),
           list := Remove e (list c), mu := (mu c)\<lparr>writer := False\<rparr>\<rparr>, True) \<and>
      (invariant c \<longrightarrow> e \<in> set (list c) \<and> e \<notin> set (Remove e (list c))) \<and>
      Del (fst (Del c k)) k = (fst (Del c k), False))"
proof (intro conjI allI impI)
  show "Del c k = (c\<lparr>mu := (mu c)\<lparr>writer := False\<rparr>\<rparr>, False)" if "items c k = None"
    using that by (simp add: Del_absent Unlock_def)
  show "Del c k =
        (c\<lparr>itemCount := itemCount c - 1, items := (items c)(k := None),
           list := Remove e (list c), mu := (mu c)\<lparr>writer := False\<rparr>\<rparr>, True)"
    if "items c k = Some e" for e
    using that by (simp add: Del_present Unlock_def unlink_def)
  show "Del (fst (Del c k)) k = (fst (Del c k), False)" if "items c k = Some e" for e
    using that by (simp add: Del_present Del_absent Unlock_def)
  show "e \<in> set (list c)" if "items c k = Some e" "invariant c" for e
    using that entries_Some(2) [of c k e] by (simp add: invariant_def)
  show "e \<notin> set (Remove e (list c))" if "items c k = Some e" "invariant c" for e
    using that I1_distinct [of c] by (simp add: invariant_def Remove_def)
qed

theorem Del_outcomes_witness:
  "items two_entries ''c'' = None \<and> Del two_entries ''c'' = (two_entries, False) \<and>
   items two_entries ''a'' = Some 0 \<and> invariant two_entries \<and>
   snd (Del two_entries ''a'') = True \<and>
   list (fst (Del two_entries ''a'')) = [1] \<and>
   itemCount (fst (Del two_entries ''a'')) = 1 \<and>
   items (fst (Del two_entries ''a'')) ''a'' = None \<and>
   snd (Del (fst (Del two_entries ''a'')) ''a'') = False"
  using Del_outcomes [of two_entries "''c''"] Del_outcomes [of two_entries "''a''"]
    two_entries_invariant
  by (simp add: Remove_def Del_absent Unlock_def) (simp add: two_entries_def)

text \<open>
  C9. \<open>Get\<close> removes a stale entry while it holds the mutex for reading only. In the
  example cache \<open>b\<close> expired at 50. \<open>Get("b")\<close> at clock reading 60 enters lines 84 to
  97 with one reader and no writer on the mutex, and leaves them with the count down by
  one, \<open>b\<close> out of the index and its element unlinked, the mutex still held for reading
  only. \<open>Del\<close> runs the same three statements with the writer's lock held.
\<close>

theorem Get_removes_under_read_lock:
  "mu (RLock two_entries) = \<lparr>readers = 1, writer = False\<rparr> \<and>
   Get_locked (RLock two_entries) ''b'' 60 =
     ((RLock two_entries)\<lparr>itemCount := 1, items := (items two_entries)(''b'' := None),
         list := [0]\<rparr>, None, False) \<and>
   Get two_entries ''b'' 60 = (RUnlock (fst (Get_locked (RLock two_entries) ''b'' 60)), None, False) \<and>
   mu (Lock two_entries) = \<lparr>readers = 0, writer = True\<rparr> \<and>
   Del_locked (Lock two_entries) ''b'' =
     ((Lock two_entries)\<lparr>itemCount := 1, items := (items two_entries)(''b'' := None),
         list := [0]\<rparr>, True)"
  by (simp add: Get_def Get_locked_def Del_locked_def Remove_def)
     (simp add: two_entries_def RLock_def Lock_def)

text \<open>
  C10. The default expiration replaces the argument of \<open>Set\<close> when it is zero, and only
  then: the new entry of a key that was not in the index expires at \<open>now2 + t\<close> for every
  argument \<open>t\<close> but zero, and at \<open>now2 + Expiration\<close> for zero. For a negative \<open>d\<close>,
  \<open>Set\<close> links in an entry whose \<open>expire\<close> is \<open>now2 + d\<close>, and a \<open>Get\<close> of the key that
  follows (its clock reading \<open>now\<close> is not before \<open>now2\<close>) finds the entry stale: it
  returns \<open>(nil, false)\<close>, takes the key from the index, unlinks the element from the
  back of the sequence and takes one off the count. The clock reads a time after 1970
  (\<open>0 \<le>s now2\<close>), so that \<open>now2 + d\<close> does not wrap.
\<close>

theorem negative_ttl_entry_is_stale:
  assumes "invariant c" "1 \<le> MaxEntryLimit (config c)" "items c k = None"
    and "d <s 0" "0 \<le>s now2" "now2 \<le>s now"
  shows "Set c k x 0 now1 now2 = Set c k x (Expiration (config c)) now1 now2 \<and>
    (\<forall>t. \<exists>c' e. Set c k x t now1 now2 = Inr (c', None) \<and> items c' k = Some e \<and>
       expire (Value c' e) = now2 + (if t = 0 then Expiration (config c) else t)) \<and>
    (\<exists>c' e. Set c k x d now1 now2 = Inr (c', None) \<and>
       items c' k = Some e \<and> list c' = butlast (list c') @ [e] \<and>
       Value c' e = \<lparr>Object = x, expire = now2 + d, key = k\<rparr> \<and>
       expire (Value c' e) <s now \<and>
       Get c' k now =
         (c'\<lparr>itemCount := itemCount c' - 1, items := (items c')(k := None),
             list := butlast (list c')\<rparr>, None, False))"
proof (intro conjI allI)
  show "Set c k x 0 now1 now2 = Set c k x (Expiration (config c)) now1 now2"
    by (simp add: Set_def)
  show "\<exists>c' e. Set c k x t now1 now2 = Inr (c', None) \<and> items c' k = Some e \<and>
       expire (Value c' e) = now2 + (if t = 0 then Expiration (config c) else t)" for t
  proof -
    let ?t = "now2 + (if t = 0 then Expiration (config c) else t)"
    obtain c2 where s: "Set c k x t now1 now2 = Inr (Unlock (link_back c2 k x ?t), None)"
      using Set_absent_cases [OF assms(1-3), of x t now1 now2] by auto
    have "items (Unlock (link_back c2 k x ?t)) k = Some (fresh c2)" by simp
    moreover have "expire (Value (Unlock (link_back c2 k x ?t)) (fresh c2)) = ?t" by simp
    ultimately show ?thesis using s by blast
  qed
  have dz: "d \<noteq> 0" using assms(4) by auto
  obtain c2 where s: "Set c k x d now1 now2 = Inr (Unlock (link_back c2 k x (now2 + d)), None)"
    and i: "invariant c2" and f: "fresh c2 = fresh c"
    using Set_absent_cases [OF assms(1-3), of x d now1 now2] dz by auto
  let ?c' = "Unlock (link_back c2 k x (now2 + d))"
  let ?e = "fresh c2"
  have notin: "?e \<notin> set (list c2)"
    using i by (auto simp: invariant_def allocated_def)
  have st: "expire (Value ?c' ?e) <s now"
    using negative_ttl_in_past [OF assms(4-6)] by simp
  have it: "items ?c' k = Some ?e" by simp
  have "Get ?c' k now = (unlink ?c' k ?e, None, False)"
    using it st by (rule Get_stale)
  moreover have "Remove ?e (list ?c') = butlast (list ?c')"
    using notin by (simp add: Remove_def remove1_append)
  ultimately have "Get ?c' k now =
         (?c'\<lparr>itemCount := itemCount ?c' - 1, items := (items ?c')(k := None),
             list := butlast (list ?c')\<rparr>, None, False)"
    by (simp add: unlink_def)
  moreover have "list ?c' = butlast (list ?c') @ [?e]" by simp
  moreover have "Value ?c' ?e = \<lparr>Object = x, expire = now2 + d, key = k\<rparr>" by simp
  ultimately show "\<exists>c' e. Set c k x d now1 now2 = Inr (c', None) \<and>
       items c' k = Some e \<and> list c' = butlast (list c') @ [e] \<and>
       Value c' e = \<lparr>Object = x, expire = now2 + d, key = k\<rparr> \<and>
       expire (Value c' e) <s now \<and>
       Get c' k now =
         (c'\<lparr>itemCount := itemCount c' - 1, items := (items c')(k := None),
             list := butlast (list c')\<rparr>, None, False)"
    using s it st by blast
qed

theorem negative_ttl_entry_is_stale_witness:
  "invariant two_entries \<and> 1 \<le> MaxEntryLimit (config two_entries) \<and>
   items two_entries ''c'' = None \<and> (- 5 :: int64) <s 0 \<and> (0 :: int64) \<le>s 60 \<and>
   (60 :: int64) \<le>s 60 \<and> Expiration (config two_entries) = 5 \<and>
   (\<exists>c' e. Set two_entries ''c'' (Some 3) (- 5) 60 60 = Inr (c', None) \<and>
      items c' ''c'' = Some e \<and> expire (Value c' e) = 55 \<and>
      snd (Get c' ''c'' 60) = (None, False) \<and>
      items (fst (Get c' ''c'' 60)) ''c'' = None)"
proof -
  have m: "1 \<le> MaxEntryLimit (config two_entries)" by (simp add: example_config_def)
  have n: "items two_entries ''c'' = None" by simp
  have d: "(- 5 :: int64) <s 0" and z: "(0 :: int64) \<le>s 60" and l: "(60 :: int64) \<le>s 60"
    by (simp_all add: word_sless_alt word_sle_eq)
  obtain c' e where "Set two_entries ''c'' (Some 3) (- 5) 60 60 = Inr (c', None)"
    "items c' ''c'' = Some e" "Value c' e = \<lparr>Object = Some 3, expire = 60 + - 5, key = ''c''\<rparr>"
    "Get c' ''c'' 60 =
         (c'\<lparr>itemCount := itemCount c' - 1, items := (items c')(''c'' := None),
             list := butlast (list c')\<rparr>, None, False)"
    using negative_ttl_entry_is_stale [OF two_entries_invariant m n d z l, of "Some 3" 60]
    by blast
  then have "Set two_entries ''c'' (Some 3) (- 5) 60 60 = Inr (c', None) \<and>
      items c' ''c'' = Some e \<and> expire (Value c' e) = 55 \<and>
      snd (Get c' ''c'' 60) = (None, False) \<and>
      items (fst (Get c' ''c'' 60)) ''c'' = None"
    by simp
  then show ?thesis
    using two_entries_invariant m n d z l by (auto simp: example_config_def)
qed

end
